theory Spec2Isabelle
  imports Main "HOL-Library.Sublist"
begin

section \<open>Strings and the fragment of Python's \<open>re\<close> module that main.py uses\<close>

text \<open>
  A Python \<open>str\<close> is modelled as a \<open>string\<close>, one \<open>char\<close> per character. The two
  patterns of main.py are built from literal characters, character classes, sequencing,
  alternation, capturing groups and a greedy \<open>+\<close> over a class. The matcher below is the
  backtracking matcher of \<open>re\<close>: it returns every way a pattern matches a prefix of the input, in the
  order in which backtracking tries them, so the head of the list is the match \<open>re\<close> reports.
\<close>

type_synonym ranges = "(char \<times> char) list"

datatype regex =
    Lit char
  | Cls ranges
  | Seq regex regex
  | Alt regex regex
  | Grp nat regex
  | PlusCls ranges

type_synonym groups = "nat \<Rightarrow> string option"

type_synonym mstate = "string \<times> groups"

definition in_class :: "ranges \<Rightarrow> char \<Rightarrow> bool" where
  "in_class rs c =
     list_ex (\<lambda>(lo, hi). (of_char lo :: nat) \<le> of_char c \<and> (of_char c :: nat) \<le> of_char hi) rs"

fun ms :: "regex \<Rightarrow> mstate \<Rightarrow> mstate list" where
  "ms (Lit c) (s, g) = (case s of [] \<Rightarrow> [] | x # xs \<Rightarrow> if x = c then [(xs, g)] else [])"
| "ms (Cls rs) (s, g) = (case s of [] \<Rightarrow> [] | x # xs \<Rightarrow> if in_class rs x then [(xs, g)] else [])"
| "ms (Seq r1 r2) (s, g) = concat (map (ms r2) (ms r1 (s, g)))"
| "ms (Alt r1 r2) (s, g) = ms r1 (s, g) @ ms r2 (s, g)"
| "ms (Grp n r) (s, g) =
     map (\<lambda>(s', g'). (s', g'(n \<mapsto> take (length s - length s') s))) (ms r (s, g))"
| "ms (PlusCls rs) (s, g) =
     map (\<lambda>k. (drop k s, g)) (rev [1 ..< Suc (length (takeWhile (in_class rs) s))])"

text \<open>A run of literal characters, as in \<open>open\.spotify\.com/\<close>.\<close>

definition str_re :: "string \<Rightarrow> regex" where
  "str_re w = foldr (\<lambda>c r. Seq (Lit c) r) (butlast w) (Lit (last w))"

text \<open>
  \<open>re.search\<close>: the first position, from the left, at which the pattern matches; the result is
  the group table of the match (\<open>match.group(n)\<close> is \<open>g n\<close>), or \<open>None\<close>.
\<close>

fun re_search :: "regex \<Rightarrow> string \<Rightarrow> groups option" where
  "re_search r [] = (case ms r ([], Map.empty) of [] \<Rightarrow> None | (_, g) # _ \<Rightarrow> Some g)"
| "re_search r (c # cs) =
     (case ms r (c # cs, Map.empty) of [] \<Rightarrow> re_search r cs | (_, g) # _ \<Rightarrow> Some g)"

text \<open>
  \<open>find_match\<close> is the search step of \<open>re.sub\<close>: the offset of the leftmost match together with
  the input that remains after it.
\<close>

fun find_match :: "regex \<Rightarrow> string \<Rightarrow> (nat \<times> string) option" where
  "find_match r [] = (case ms r ([], Map.empty) of [] \<Rightarrow> None | (rest, _) # _ \<Rightarrow> Some (0, rest))"
| "find_match r (c # cs) =
     (case ms r (c # cs, Map.empty) of
        [] \<Rightarrow> map_option (\<lambda>(b, rest). (Suc b, rest)) (find_match r cs)
      | (rest, _) # _ \<Rightarrow> Some (0, rest))"

text \<open>
  \<open>re.sub(pattern, repl, s)\<close> with a plain replacement string: copy the text before each
  match, put the replacement, go on after the match. No pattern of this fragment matches the
  empty string (lemma \<open>find_match_shorter\<close>), so the test on the lengths always holds; it is
  written out for the termination proof.
\<close>

function re_sub :: "regex \<Rightarrow> string \<Rightarrow> string \<Rightarrow> string" where
  "re_sub r repl s =
     (case find_match r s of
        None \<Rightarrow> s
      | Some (b, rest) \<Rightarrow>
          if length rest < length s then take b s @ repl @ re_sub r repl rest else s)"
  by pat_completeness auto
termination
  by (relation "measure (\<lambda>(r, repl, s). length s)") auto

section \<open>The URL parser, the query builder and the filename sanitizer\<close>

definition alnum_ranges :: ranges where
  "alnum_ranges = [(CHR ''a'', CHR ''z''), (CHR ''A'', CHR ''Z''), (CHR ''0'', CHR ''9'')]"

text \<open>The pattern \<open>open\.spotify\.com/(track|album|playlist)/([a-zA-Z0-9]+)\<close>.\<close>

definition spotify_regex :: regex where
  "spotify_regex =
     Seq (str_re ''open.spotify.com/'')
       (Seq (Grp 1 (Alt (str_re ''track'') (Alt (str_re ''album'') (str_re ''playlist''))))
         (Seq (Lit CHR ''/'') (Grp 2 (PlusCls alnum_ranges))))"

definition extract_spotify_id :: "string \<Rightarrow> string option \<times> string option" where
  "extract_spotify_id url =
     (case re_search spotify_regex url of
        Some g \<Rightarrow> (g 1, g 2)
      | None \<Rightarrow> (None, None))"

text \<open>
  The class \<open>[\\/*?:"<>|]\<close> of \<open>sanitize_filename\<close>: backslash (code 92), slash, star,
  question mark, colon, double quote (code 34), less-than, greater-than and bar.
\<close>

definition illegal_chars :: string where
  "illegal_chars = [CHR 0x5C, CHR ''/'', CHR ''*'', CHR ''?'', CHR '':'', CHR 0x22,
                    CHR ''<'', CHR ''>'', CHR ''|'']"

definition illegal_class :: ranges where
  "illegal_class = map (\<lambda>c. (c, c)) illegal_chars"

definition sanitize_filename :: "string \<Rightarrow> string" where
  "sanitize_filename name = re_sub (Cls illegal_class) [] name"

text \<open>
  The words of the specification for the URL parser, written without reference to the pattern
  of the code: an alphanumeric character is one of the 26 lower-case letters, the 26 upper-case
  letters and the 10 digits, listed one by one; a string contains the catalog pattern when it
  splits into a prefix, the host and a slash, one of the three item types, a slash, a non-empty
  alphanumeric identifier, and a rest.
\<close>

definition alphanumerics :: string where
  "alphanumerics = ''abcdefghijklmnopqrstuvwxyzABCDEFGHIJKLMNOPQRSTUVWXYZ0123456789''"

definition is_alnum :: "char \<Rightarrow> bool" where
  "is_alnum c \<longleftrightarrow> c \<in> set alphanumerics"

definition catalog_match :: "string \<Rightarrow> string \<Rightarrow> string \<Rightarrow> string \<Rightarrow> string \<Rightarrow> bool" where
  "catalog_match s pre t i post \<longleftrightarrow>
     s = pre @ ''open.spotify.com/'' @ t @ ''/'' @ i @ post \<and>
     t \<in> {''track'', ''album'', ''playlist''} \<and> i \<noteq> [] \<and> (\<forall>c \<in> set i. is_alnum c)"

section \<open>Python values the program handles\<close>

text \<open>
  Exceptions are values. \<open>LibError\<close> stands for any exception raised inside spotipy or yt\_dlp
  (a network failure, a service error, a failed download or transcoding); all of them derive
  from \<open>Exception\<close>, which is what the handlers of main.py catch.
\<close>

datatype exn =
    KeyError string
  | IndexError
  | ValueError string
  | FileExistsError string
  | LibError string

text \<open>
  The dictionaries of the catalog service, with the keys main.py reads. A key that may be
  missing is an option. \<open>track.get("artists", [])\<close> and \<open>track.get("name", "")\<close> tolerate a
  missing key, \<open>a["name"]\<close> does not.
\<close>

record artist =
  a_name :: "string option"

record track =
  t_artists :: "artist list option"
  t_name :: "string option"

record track_info =
  ti_id :: "string option"

record playlist_item =
  pi_track :: "track option"

record album =
  al_name :: "string option"

record playlist =
  pl_name :: "string option"
  pl_items :: "playlist_item list"


text \<open>\<open>sep.join(xs)\<close>.\<close>

fun join :: "string \<Rightarrow> string list \<Rightarrow> string" where
  "join sep [] = []"
| "join sep [x] = x"
| "join sep (x # y # ys) = x @ sep @ join sep (y # ys)"

text \<open>\<open>[a["name"] for a in artists]\<close>: the first artist without a name raises \<open>KeyError\<close>.\<close>

fun names_of :: "artist list \<Rightarrow> exn + string list" where
  "names_of [] = Inr []"
| "names_of (a # as) =
     (case a_name a of
        None \<Rightarrow> Inl (KeyError ''name'')
      | Some n \<Rightarrow> (case names_of as of Inl e \<Rightarrow> Inl e | Inr ns \<Rightarrow> Inr (n # ns)))"

text \<open>\<open>", ".join([a["name"] for a in track.get("artists", [])])\<close>, as written three times in main.py.\<close>

definition artist_line :: "track \<Rightarrow> exn + string" where
  "artist_line t =
     (case names_of (case t_artists t of None \<Rightarrow> [] | Some as \<Rightarrow> as) of
        Inl e \<Rightarrow> Inl e
      | Inr ns \<Rightarrow> Inr (join '', '' ns))"

definition title_of :: "track \<Rightarrow> string" where
  "title_of t = (case t_name t of None \<Rightarrow> [] | Some n \<Rightarrow> n)"

definition build_query :: "track \<Rightarrow> exn + string" where
  "build_query t =
     (case artist_line t of
        Inl e \<Rightarrow> Inl e
      | Inr artist \<Rightarrow> Inr (artist @ '' - '' @ title_of t @ '' official audio''))"

text \<open>\<open>sanitize_filename(f"{artist} - {title}")\<close>, the base filename of a track.\<close>

definition base_filename_of :: "track \<Rightarrow> exn + string" where
  "base_filename_of t =
     (case artist_line t of
        Inl e \<Rightarrow> Inl e
      | Inr artist \<Rightarrow> Inr (sanitize_filename (artist @ '' - '' @ title_of t)))"

section \<open>The world: file system and trace of effects\<close>

text \<open>
  Every effect of the program is an event of the trace, in the order it happens: a request to
  the catalog service, a call of \<open>os.makedirs\<close>, a search or a download of the downloader
  library (with the output template of the \<open>YoutubeDL\<close> object), a log record. A log record
  keeps the values put into its message rather than the formatted text.
\<close>

datatype log_msg =
    InvalidUrl
  | FetchError exn
  | FailedFetch exn
  | FoundTracks nat string string
  | SearchQuery string
  | DownloadedSong string
  | FailedSong
  | DownloadingInto nat string
  | DownloadingTrack string
  | FoundVideo "string option"
  | DownloadError exn
  | DownloadedCount nat string
  | FailedAll

datatype event =
    ApiTrack string
  | ApiAlbum string
  | ApiAlbumTracks string
  | ApiPlaylist string
  | MakeDirs string
  | YdlSearch string string
  | YdlDownload string "string option"
  | LogInfo log_msg
  | LogError log_msg

text \<open>
  The file system is the set of the paths that exist, each a list of names from the root.
  Paths are POSIX paths; \<open>norm_path\<close> drops empty names and \<open>.\<close> and resolves \<open>..\<close> by
  dropping the name before it (there are no symbolic links).
\<close>

type_synonym filesystem = "string list set"

record world =
  files :: filesystem
  trace :: "event list"

definition emit :: "event \<Rightarrow> world \<Rightarrow> world" where
  "emit e w = w\<lparr>trace := trace w @ [e]\<rparr>"

fun split_on :: "char \<Rightarrow> string \<Rightarrow> string list" where
  "split_on d [] = [[]]"
| "split_on d (c # cs) =
     (if c = d then [] # split_on d cs
      else (case split_on d cs of [] \<Rightarrow> [[c]] | x # xs \<Rightarrow> (c # x) # xs))"

definition norm_path :: "string \<Rightarrow> string list" where
  "norm_path p =
     foldl (\<lambda>acc c. if c = [] \<or> c = ''.'' then acc
                     else if c = ''..'' then butlast acc
                     else acc @ [c])
       [] (split_on CHR ''/'' p)"

definition path_exists :: "filesystem \<Rightarrow> string \<Rightarrow> bool" where
  "path_exists f p = (norm_path p = [] \<or> norm_path p \<in> f)"

text \<open>\<open>os.path.join(a, b)\<close> on POSIX.\<close>

definition path_join :: "string \<Rightarrow> string \<Rightarrow> string" where
  "path_join a b =
     (if b \<noteq> [] \<and> hd b = CHR ''/'' then b
      else if a = [] \<or> last a = CHR ''/'' then a @ b
      else a @ ''/'' @ b)"

text \<open>
  \<open>os.makedirs(p)\<close> creates the directory and every missing parent, and raises
  \<open>FileExistsError\<close> when the path exists. Other failures of the operating system are left
  out, as the program assumes that creating a directory succeeds.
\<close>

definition makedirs :: "filesystem \<Rightarrow> string \<Rightarrow> exn + filesystem" where
  "makedirs f p =
     (if path_exists f p then Inl (FileExistsError p)
      else Inr (f \<union> set (prefixes (norm_path p))))"

text \<open>The idiom \<open>if not os.path.exists(p): os.makedirs(p)\<close> of \<open>main\<close>.\<close>

definition ensure_dir :: "string \<Rightarrow> world \<Rightarrow> (exn + unit) \<times> world" where
  "ensure_dir p w =
     (if \<not> path_exists (files w) p then
        (case makedirs (files w) p of
           Inl e \<Rightarrow> (Inl e, emit (MakeDirs p) w)
         | Inr f \<Rightarrow> (Inr (), emit (MakeDirs p) (w\<lparr>files := f\<rparr>)))
      else (Inr (), w))"

section \<open>The catalog client and the downloader library\<close>

text \<open>
  Both libraries are parameters. The catalog client answers a request with a record or raises;
  \<open>sp_album_tracks\<close> gives the \<open>items\<close> of the page that \<open>sp.album_tracks\<close> returns.
\<close>

record spotify =
  sp_track :: "string \<Rightarrow> exn + track"
  sp_album :: "string \<Rightarrow> exn + album"
  sp_album_tracks :: "string \<Rightarrow> exn + track_info list"
  sp_playlist :: "string \<Rightarrow> exn + playlist"

record video =
  webpage_url :: "string option"

record info =
  entries :: "video list option"

text \<open>
  The options of a \<open>YoutubeDL\<close> object that vary: the output template and the transcoder
  location. \<open>ydl_extract_info\<close> is \<open>extract_info(query, download=False)\<close>; \<open>ydl_download\<close> is
  \<open>download([url])\<close>, which fetches, transcodes and writes files: it gives the file system
  afterwards and the exception it raised, if any.
\<close>

record ydl_opts =
  outtmpl :: string
  ffmpeg_location :: string

record ydl =
  ydl_extract_info :: "ydl_opts \<Rightarrow> string \<Rightarrow> exn + info"
  ydl_download :: "ydl_opts \<Rightarrow> string option \<Rightarrow> filesystem \<Rightarrow> exn option \<times> filesystem"

section \<open>The downloader\<close>

definition download_song :: "ydl \<Rightarrow> string \<Rightarrow> string \<Rightarrow> string \<Rightarrow> string \<Rightarrow> world \<Rightarrow> string option \<times> world" where
  "download_song y query downloads_dir base_filename ffmpeg_path w =
     (let output_template = path_join downloads_dir (base_filename @ ''.%(ext)s'');
          final_filename = base_filename @ ''.mp3'';
          final_path = path_join downloads_dir final_filename;
          ydl_opts = \<lparr>outtmpl = output_template, ffmpeg_location = ffmpeg_path\<rparr>;
          w1 = emit (YdlSearch output_template (''ytsearch:'' @ query)) w
      in case ydl_extract_info y ydl_opts (''ytsearch:'' @ query) of
           Inl e \<Rightarrow> (None, emit (LogError (DownloadError e)) w1)
         | Inr info \<Rightarrow>
             (case entries info of
                Some (video # _) \<Rightarrow>
                  (let video_url = webpage_url video;
                       w2 = emit (LogInfo (FoundVideo video_url)) w1;
                       w3 = emit (YdlDownload output_template video_url) w2
                   in case ydl_download y ydl_opts video_url (files w3) of
                        (Some e, f) \<Rightarrow> (None, emit (LogError (DownloadError e)) (w3\<lparr>files := f\<rparr>))
                      | (None, f) \<Rightarrow>
                          if path_exists f final_path then (Some final_path, w3\<lparr>files := f\<rparr>)
                          else (None, w3\<lparr>files := f\<rparr>))
              | _ \<Rightarrow> (None, w1)))"

section \<open>The catalog adapter\<close>

text \<open>The loop over the album's track listing: an entry without an id, or with an empty one, is skipped.\<close>

fun fetch_album_tracks :: "spotify \<Rightarrow> track_info list \<Rightarrow> track list \<Rightarrow> world \<Rightarrow> (exn + track list) \<times> world" where
  "fetch_album_tracks sp [] items w = (Inr items, w)"
| "fetch_album_tracks sp (track_info # rest) items w =
     (case ti_id track_info of
        None \<Rightarrow> fetch_album_tracks sp rest items w
      | Some tid \<Rightarrow>
          if tid \<noteq> [] then
            (case sp_track sp tid of
               Inl e \<Rightarrow> (Inl e, emit (ApiTrack tid) w)
             | Inr track_obj \<Rightarrow> fetch_album_tracks sp rest (items @ [track_obj]) (emit (ApiTrack tid) w))
          else fetch_album_tracks sp rest items w)"

text \<open>
  The loop over the items of a playlist: an item without a track object is skipped. A track
  object of the service is a dictionary that is not empty, hence true in the test
  \<open>if track_obj\<close>.
\<close>

fun playlist_tracks :: "playlist_item list \<Rightarrow> track list \<Rightarrow> track list" where
  "playlist_tracks [] items = items"
| "playlist_tracks (item # rest) items =
     (case pi_track item of
        None \<Rightarrow> playlist_tracks rest items
      | Some track_obj \<Rightarrow> playlist_tracks rest (items @ [track_obj]))"

definition fetch_items :: "spotify \<Rightarrow> string \<Rightarrow> string \<Rightarrow> world \<Rightarrow> (exn + track list \<times> string) \<times> world" where
  "fetch_items sp url_type spotify_id w =
     (if url_type = ''track'' then
        (case sp_track sp spotify_id of
           Inl e \<Rightarrow> (Inl e, emit (ApiTrack spotify_id) w)
         | Inr track \<Rightarrow>
             (Inr ([track], case t_name track of None \<Rightarrow> ''Unknown Track'' | Some n \<Rightarrow> n),
              emit (ApiTrack spotify_id) w))
      else if url_type = ''album'' then
        (case sp_album sp spotify_id of
           Inl e \<Rightarrow> (Inl e, emit (ApiAlbum spotify_id) w)
         | Inr album \<Rightarrow>
             (let name = (case al_name album of None \<Rightarrow> ''Unknown Album'' | Some n \<Rightarrow> n);
                  w1 = emit (ApiAlbumTracks spotify_id) (emit (ApiAlbum spotify_id) w)
              in case sp_album_tracks sp spotify_id of
                   Inl e \<Rightarrow> (Inl e, w1)
                 | Inr album_tracks \<Rightarrow>
                     (case fetch_album_tracks sp album_tracks [] w1 of
                        (Inl e, w2) \<Rightarrow> (Inl e, w2)
                      | (Inr items, w2) \<Rightarrow> (Inr (items, name), w2))))
      else if url_type = ''playlist'' then
        (case sp_playlist sp spotify_id of
           Inl e \<Rightarrow> (Inl e, emit (ApiPlaylist spotify_id) w)
         | Inr playlist \<Rightarrow>
             (Inr (playlist_tracks (pl_items playlist) [],
                   case pl_name playlist of None \<Rightarrow> ''Unknown Playlist'' | Some n \<Rightarrow> n),
              emit (ApiPlaylist spotify_id) w))
      else (Inl (ValueError ''Unknown Spotify URL type encountered.''), w))"

text \<open>
  \<open>get_items_from_spotify\<close>: the body of the \<open>try\<close> is \<open>fetch_items\<close>; an exception is
  logged and raised again, a result is logged and returned.
\<close>

definition get_items_from_spotify :: "spotify \<Rightarrow> string \<Rightarrow> string \<Rightarrow> world \<Rightarrow> (exn + track list \<times> string) \<times> world" where
  "get_items_from_spotify sp url_type spotify_id w =
     (case fetch_items sp url_type spotify_id w of
        (Inl e, w1) \<Rightarrow> (Inl e, emit (LogError (FetchError e)) w1)
      | (Inr (items, name), w1) \<Rightarrow>
          (Inr (items, name), emit (LogInfo (FoundTracks (length items) url_type name)) w1))"

section \<open>The orchestrator\<close>

text \<open>
  \<open>main\<close> returns nothing; the model returns how the run ended, with the values of
  \<open>output_path\<close> and \<open>downloaded\<close> at that point, or the exception that left \<open>main\<close>.
\<close>

datatype outcome =
    InvalidUrlExit
  | FetchFailedExit
  | SingleDone "string option"
  | ManyDone "string list"


text \<open>The function \<open>process_track\<close> local to \<open>main\<close>.\<close>

definition process_track :: "ydl \<Rightarrow> string \<Rightarrow> track \<Rightarrow> world \<Rightarrow> (exn + string option) \<times> world" where
  "process_track y collection_folder track w =
     (case build_query track of
        Inl e \<Rightarrow> (Inl e, w)
      | Inr q \<Rightarrow>
          (case base_filename_of track of
             Inl e \<Rightarrow> (Inl e, w)
           | Inr base_fn \<Rightarrow>
               (case download_song y q collection_folder base_fn ''ast''
                       (emit (LogInfo (DownloadingTrack base_fn)) w) of
                  (r, w1) \<Rightarrow> (Inr r, w1))))"

text \<open>
  The thread pool. \<open>executor.submit\<close> makes one future per item, in the order of the items; a
  future is \<open>None\<close> while its task has not finished and holds the task's result or exception
  afterwards. The worker threads finish the tasks in an order the program does not control:
  the schedule \<open>sched\<close>, any list of task numbers. A number that is out of range or whose task
  has finished is passed over, and \<open>run_pool\<close> runs what the schedule leaves out in the order
  of submission, as the executor runs every task it was given. Each task runs as one step.
\<close>

type_synonym future = "(exn + string option) option"

fun run_tasks :: "(track \<Rightarrow> world \<Rightarrow> (exn + string option) \<times> world) \<Rightarrow> track list \<Rightarrow> nat list \<Rightarrow>
    future list \<Rightarrow> world \<Rightarrow> future list \<times> world" where
  "run_tasks f items [] futures w = (futures, w)"
| "run_tasks f items (i # sched) futures w =
     (if i < length items \<and> i < length futures \<and> futures ! i = None then
        (case f (items ! i) w of
           (r, w1) \<Rightarrow> run_tasks f items sched (futures[i := Some r]) w1)
      else run_tasks f items sched futures w)"

definition run_pool :: "(track \<Rightarrow> world \<Rightarrow> (exn + string option) \<times> world) \<Rightarrow> track list \<Rightarrow> nat list \<Rightarrow>
    world \<Rightarrow> future list \<times> world" where
  "run_pool f items sched w =
     run_tasks f items (sched @ [0 ..< length items]) (replicate (length items) None) w"

text \<open>
  The loop \<open>for future in futures\<close>: \<open>future.result()\<close> waits for the task, raises the
  task's exception or gives its result. The result is \<open>None\<close> when a future never finishes,
  so that the loop waits forever.
\<close>

fun collect :: "future list \<Rightarrow> string list \<Rightarrow> (exn + string list) option" where
  "collect [] downloaded = Some (Inr downloaded)"
| "collect (None # futures) downloaded = None"
| "collect (Some (Inl e) # futures) downloaded = Some (Inl e)"
| "collect (Some (Inr result) # futures) downloaded =
     (case result of
        None \<Rightarrow> collect futures downloaded
      | Some p \<Rightarrow> if p \<noteq> [] then collect futures (downloaded @ [p]) else collect futures downloaded)"

text \<open>The branch of \<open>main\<close> for a collection (lines 147 to 174).\<close>

definition download_many :: "ydl \<Rightarrow> nat list \<Rightarrow> string \<Rightarrow> string \<Rightarrow> track list \<Rightarrow> world \<Rightarrow>
    ((exn + outcome) \<times> world) option" where
  "download_many y sched downloads_dir collection_name items w =
     (let collection_folder = path_join downloads_dir (sanitize_filename collection_name)
      in case ensure_dir collection_folder w of
           (Inl e, w1) \<Rightarrow> Some (Inl e, w1)
         | (Inr _, w1) \<Rightarrow>
             (case run_pool (process_track y collection_folder) items sched
                     (emit (LogInfo (DownloadingInto (length items) collection_folder)) w1) of
                (futures, w2) \<Rightarrow>
                  (case collect futures [] of
                     None \<Rightarrow> None
                   | Some (Inl e) \<Rightarrow> Some (Inl e, w2)
                   | Some (Inr downloaded) \<Rightarrow>
                       if downloaded \<noteq> [] then
                         Some (Inr (ManyDone downloaded),
                               emit (LogInfo (DownloadedCount (length downloaded) collection_folder)) w2)
                       else Some (Inr (ManyDone downloaded), emit (LogError FailedAll) w2))))"


section \<open>Notions used to state the properties\<close>

text \<open>
  The identifiers that the album loop looks up: those of the listing's entries that have an id
  which is not empty, in the order of the listing.
\<close>

definition lookup_ids :: "track_info list \<Rightarrow> string list" where
  "lookup_ids tis =
     List.map_filter
       (\<lambda>ti. case ti_id ti of None \<Rightarrow> None | Some tid \<Rightarrow> if tid \<noteq> [] then Some tid else None) tis"

text \<open>The log records of a trace, and the directories that \<open>os.makedirs\<close> was asked to make.\<close>

fun is_log :: "event \<Rightarrow> bool" where
  "is_log (LogInfo m) = True"
| "is_log (LogError m) = True"
| "is_log e = False"

definition log_records :: "world \<Rightarrow> event list" where
  "log_records w = filter is_log (trace w)"






text \<open>The path a finished task returned, if it returned one.\<close>

fun path_of_result :: "exn + string option \<Rightarrow> string option" where
  "path_of_result (Inr (Some p)) = Some p"
| "path_of_result r = None"

fun has_path :: "future \<Rightarrow> bool" where
  "has_path (Some (Inr (Some p))) = True"
| "has_path fut = False"

fun raised :: "future \<Rightarrow> bool" where
  "raised (Some (Inl e)) = True"
| "raised fut = False"

section \<open>Example environments\<close>

text \<open>
  A downloader library that finds nothing; one that finds a video and writes the mp3 file the
  output template names; one that writes the file and then raises; one that finds a video for
  the track \<open>t1\<close> only; catalog services with small albums and playlists; the empty world and
  a world in which the folder of the album \<open>Al\<close> exists.
\<close>

definition mp3_of :: "string \<Rightarrow> string" where
  "mp3_of tmpl = take (length tmpl - 7) tmpl @ ''mp3''"

definition one_video :: info where
  "one_video = \<lparr>entries = Some [\<lparr>webpage_url = Some ''https://video.example/v1''\<rparr>]\<rparr>"

definition ydl_no_results :: ydl where
  "ydl_no_results =
     \<lparr>ydl_extract_info = (\<lambda>opts q. Inr \<lparr>entries = Some []\<rparr>),
      ydl_download = (\<lambda>opts url f. (None, f))\<rparr>"

definition ydl_ok :: ydl where
  "ydl_ok =
     \<lparr>ydl_extract_info = (\<lambda>opts q. Inr one_video),
      ydl_download = (\<lambda>opts url f. (None, insert (norm_path (mp3_of (outtmpl opts))) f))\<rparr>"

definition ydl_raises_late :: ydl where
  "ydl_raises_late =
     \<lparr>ydl_extract_info = (\<lambda>opts q. Inr one_video),
      ydl_download = (\<lambda>opts url f.
         (Some (LibError ''postprocessing failed''), insert (norm_path (mp3_of (outtmpl opts))) f))\<rparr>"

definition w0 :: world where
  "w0 = \<lparr>files = {}, trace = []\<rparr>"

definition song :: "string \<Rightarrow> track" where
  "song title = \<lparr>t_artists = Some [\<lparr>a_name = Some ''A''\<rparr>], t_name = Some title\<rparr>"

definition sp_album_no_id :: spotify where
  "sp_album_no_id =
     \<lparr>sp_track = (\<lambda>i. Inr (song i)),
      sp_album = (\<lambda>i. Inr \<lparr>al_name = Some ''Al''\<rparr>),
      sp_album_tracks = (\<lambda>i. Inr [\<lparr>ti_id = None\<rparr>]),
      sp_playlist = (\<lambda>i. Inl (LibError ''not found''))\<rparr>"

definition sp_album_two :: spotify where
  "sp_album_two =
     \<lparr>sp_track = (\<lambda>i. Inr (song i)),
      sp_album = (\<lambda>i. Inr \<lparr>al_name = Some ''Al''\<rparr>),
      sp_album_tracks = (\<lambda>i. Inr [\<lparr>ti_id = Some ''t1''\<rparr>, \<lparr>ti_id = None\<rparr>, \<lparr>ti_id = Some ''t2''\<rparr>]),
      sp_playlist = (\<lambda>i. Inl (LibError ''not found''))\<rparr>"


definition ydl_only_t1 :: ydl where
  "ydl_only_t1 =
     \<lparr>ydl_extract_info = (\<lambda>opts q. if q = ''ytsearch:A - t1 official audio'' then Inr one_video
                                    else Inr \<lparr>entries = Some []\<rparr>),
      ydl_download = (\<lambda>opts url f. (None, insert (norm_path (mp3_of (outtmpl opts))) f))\<rparr>"


section \<open>The filename sanitizer removes the nine characters and nothing else\<close>

declare re_sub.simps [simp del]

lemma ms_shorter: "(s', g') \<in> set (ms r (s, g)) \<Longrightarrow> length s' < length s"
proof (induction r arbitrary: s g s' g')
  case (Lit c) then show ?case by (auto split: list.splits if_splits)
next
  case (Cls rs) then show ?case by (auto split: list.splits if_splits)
next
  case (Seq r1 r2)
  from Seq.prems obtain m where m: "m \<in> set (ms r1 (s, g))" and e: "(s', g') \<in> set (ms r2 m)"
    by auto
  obtain s1 g1 where m_eq: "m = (s1, g1)" by (cases m)
  from Seq.IH(1) m m_eq have "length s1 < length s" by blast
  moreover from Seq.IH(2) e m_eq have "length s' < length s1" by blast
  ultimately show ?case by simp
next
  case (Alt r1 r2) then show ?case by auto
next
  case (Grp n r) then show ?case by auto
next
  case (PlusCls rs)
  then show ?case using length_takeWhile_le [of "in_class rs" s] by auto
qed

lemma find_match_shorter: "find_match r s = Some (b, rest) \<Longrightarrow> length rest < length s"
proof (induction s arbitrary: b)
  case Nil
  then show ?case using ms_shorter [of rest _ r "[]" Map.empty]
    by (auto split: list.splits)
next
  case (Cons c cs)
  show ?case
  proof (cases "ms r (c # cs, Map.empty)")
    case Nil
    with Cons.prems obtain b' where "find_match r cs = Some (b', rest)" by auto
    from Cons.IH [OF this] show ?thesis by simp
  next
    case (Cons m tl)
    obtain s1 g1 where m_eq: "m = (s1, g1)" by (cases m)
    with Cons Cons.prems have "rest = s1" by simp
    moreover have "(s1, g1) \<in> set (ms r (c # cs, Map.empty))" using Cons m_eq by simp
    ultimately show ?thesis using ms_shorter by blast
  qed
qed

lemma find_match_Cls:
  "find_match (Cls rs) s =
     (case dropWhile (\<lambda>c. \<not> in_class rs c) s of
        [] \<Rightarrow> None
      | c # cs \<Rightarrow> Some (length (takeWhile (\<lambda>c. \<not> in_class rs c) s), cs))"
proof (induction s)
  case Nil
  show ?case by simp
next
  case (Cons x xs)
  show ?case
  proof (cases "in_class rs x")
    case True
    then show ?thesis by simp
  next
    case False
    show ?thesis
    proof (cases "dropWhile (\<lambda>c. \<not> in_class rs c) xs")
      case Nil
      with False Cons.IH show ?thesis by (simp del: dropWhile_eq_Nil_conv)
    next
      case (Cons y ys)
      with False Cons.IH show ?thesis by (simp del: dropWhile_eq_Nil_conv)
    qed
  qed
qed

lemma re_sub_Cls: "re_sub (Cls rs) [] s = filter (\<lambda>c. \<not> in_class rs c) s"
proof (induction "length s" arbitrary: s rule: less_induct)
  case less
  let ?P = "\<lambda>c. \<not> in_class rs c"
  show ?case
  proof (cases "dropWhile ?P s")
    case Nil
    then have "\<forall>c \<in> set s. ?P c" by (metis dropWhile_eq_Nil_conv)
    then have "filter ?P s = s" by (simp add: filter_id_conv)
    moreover have "find_match (Cls rs) s = None"
      by (simp only: find_match_Cls Nil list.case)
    ultimately show ?thesis by (simp add: re_sub.simps [of _ _ s])
  next
    case (Cons c cs)
    have s_eq: "s = takeWhile ?P s @ c # cs" using Cons by (metis takeWhile_dropWhile_id)
    have c: "in_class rs c" using Cons by (metis hd_dropWhile list.sel(1) list.distinct(1))
    have len: "length cs < length s" using arg_cong [OF s_eq, of length] by simp
    have tk: "take (length (takeWhile ?P s)) s = takeWhile ?P s"
      using s_eq by (metis append_eq_conv_conj)
    have "filter ?P s = filter ?P (takeWhile ?P s) @ filter ?P (c # cs)"
      using arg_cong [OF s_eq, of "filter ?P"] by simp
    also have "filter ?P (takeWhile ?P s) = takeWhile ?P s"
      by (auto simp: filter_id_conv dest: set_takeWhileD)
    finally have f: "filter ?P s = takeWhile ?P s @ filter ?P cs" using c by simp
    have fm: "find_match (Cls rs) s = Some (length (takeWhile ?P s), cs)"
      by (simp only: find_match_Cls Cons list.case)
    show ?thesis
      using less [OF len] len tk f fm
      by (simp add: re_sub.simps [of _ _ s])
  qed
qed

lemma in_illegal_class: "in_class illegal_class c \<longleftrightarrow> c \<in> set illegal_chars"
  by (auto simp: in_class_def illegal_class_def list_ex_iff)

lemma set_illegal_chars:
  "set illegal_chars =
     {CHR 0x5C, CHR ''/'', CHR ''*'', CHR ''?'', CHR '':'', CHR 0x22, CHR ''<'', CHR ''>'', CHR ''|''}"
  by (simp add: illegal_chars_def)

lemma sanitize_filename_filter: "sanitize_filename s = filter (\<lambda>c. c \<notin> set illegal_chars) s"
  by (simp add: sanitize_filename_def re_sub_Cls in_illegal_class)

text \<open>
  Claim C2. For every string, \<open>sanitize_filename\<close> returns the string with every occurrence of
  the nine characters \<open>\\ / * ? : " < > |\<close> removed and every other character kept, in
  order: it is the filter that keeps exactly the characters outside the set of the nine, which
  the statement lists one by one (backslash is the character of code \<open>0x5C\<close>, the double
  quote the character of code \<open>0x22\<close>). In particular \<open>A/B:C?\<close> becomes \<open>ABC\<close>, and
  \<open>AC*DC|<live>\<close> becomes \<open>ACDClive\<close>.
\<close>

theorem sanitize_filename_removes_illegal:
  "sanitize_filename s =
     filter (\<lambda>c. c \<notin> {CHR 0x5C, CHR ''/'', CHR ''*'', CHR ''?'', CHR '':'', CHR 0x22,
                        CHR ''<'', CHR ''>'', CHR ''|''}) s \<and>
   sanitize_filename ''A/B:C?'' = ''ABC'' \<and>
   sanitize_filename ''AC*DC|<live>'' = ''ACDClive'' \<and>
   sanitize_filename [CHR ''a'', CHR 0x5C, CHR ''b'', CHR 0x22, CHR ''c''] = ''abc''"
  by (simp add: sanitize_filename_filter set_illegal_chars)

text \<open>
  Claim C10. \<open>sanitize_filename\<close> is idempotent: sanitizing a sanitized name changes nothing.
\<close>

theorem sanitize_filename_idempotent:
  "sanitize_filename (sanitize_filename s) = sanitize_filename s"
  by (simp add: sanitize_filename_filter)

section \<open>The URL parser finds the leftmost catalog pattern\<close>

lemma str_re_Cons2: "str_re (c # d # ds) = Seq (Lit c) (str_re (d # ds))"
  by (simp add: str_re_def)

lemma str_re_single: "str_re [c] = Lit c"
  by (simp add: str_re_def)

lemma ms_str_re:
  "w \<noteq> [] \<Longrightarrow> ms (str_re w) (s, g) = (if prefix w s then [(drop (length w) s, g)] else [])"
proof (induction w arbitrary: s)
  case Nil then show ?case by simp
next
  case (Cons c w)
  show ?case
  proof (cases w)
    case Nil
    then show ?thesis by (cases s) (auto simp: str_re_single)
  next
    case (Cons d ds)
    then have IH: "\<And>s. ms (str_re w) (s, g) = (if prefix w s then [(drop (length w) s, g)] else [])"
      using Cons.IH by simp
    show ?thesis
    proof (cases s)
      case Nil
      then show ?thesis using Cons by (simp add: str_re_Cons2)
    next
      case (Cons x xs)
      then show ?thesis using \<open>w = d # ds\<close> IH [of xs]
        by (auto simp: str_re_Cons2)
    qed
  qed
qed

lemma in_class_alnum_ranges: "\<forall>c. in_class alnum_ranges c = is_alnum c"
  by code_simp

lemma is_alnum_eq: "in_class alnum_ranges = is_alnum"
  by (rule ext) (simp add: in_class_alnum_ranges)

lemma ms_PlusCls_hd:
  assumes ne: "takeWhile (in_class rs) s \<noteq> []"
  shows "\<exists>tl. ms (PlusCls rs) (s, g) = (dropWhile (in_class rs) s, g) # tl"
proof -
  let ?n = "length (takeWhile (in_class rs) s)"
  have "0 < ?n" using ne by (cases "takeWhile (in_class rs) s") simp_all
  then have "[1 ..< Suc ?n] = [1 ..< ?n] @ [?n]" by (simp add: Suc_le_eq)
  then have "rev [1 ..< Suc ?n] = ?n # rev [1 ..< ?n]" by (simp only: rev_append rev.simps append.simps)
  moreover have "drop ?n s = dropWhile (in_class rs) s" by (simp add: dropWhile_eq_drop)
  ultimately show ?thesis by (simp only: ms.simps list.map) blast
qed

lemma ms_PlusCls_Nil: "takeWhile (in_class rs) s = [] \<Longrightarrow> ms (PlusCls rs) (s, g) = []"
  by simp

lemma ms_Grp_PlusCls_hd:
  assumes ne: "takeWhile (in_class rs) s \<noteq> []"
  shows "\<exists>tl. ms (Grp n (PlusCls rs)) (s, g) =
           (dropWhile (in_class rs) s, g(n \<mapsto> takeWhile (in_class rs) s)) # tl"
proof -
  from ms_PlusCls_hd [OF ne]
  obtain tl where tl: "ms (PlusCls rs) (s, g) = (dropWhile (in_class rs) s, g) # tl" by blast
  have "length s = length (takeWhile (in_class rs) s) + length (dropWhile (in_class rs) s)"
    by (metis length_append takeWhile_dropWhile_id)
  then have "take (length s - length (dropWhile (in_class rs) s)) s = takeWhile (in_class rs) s"
    by (metis add_diff_cancel_right' append_eq_conv_conj takeWhile_dropWhile_id)
  then show ?thesis by (simp only: ms.simps(5) tl list.map prod.case) blast
qed

lemma ms_type_re:
  "ms (Grp n (Alt (str_re ''track'') (Alt (str_re ''album'') (str_re ''playlist'')))) (s, g) =
     (if prefix ''track'' s then [(drop 5 s, g(n \<mapsto> ''track''))]
      else if prefix ''album'' s then [(drop 5 s, g(n \<mapsto> ''album''))]
      else if prefix ''playlist'' s then [(drop 8 s, g(n \<mapsto> ''playlist''))]
      else [])"
  by (auto simp: ms_str_re prefix_def)

lemma ms_spotify_unfold:
  "ms spotify_regex (s, Map.empty) =
     (if prefix ''open.spotify.com/'' s then
        concat (map (ms (Seq (Lit CHR ''/'') (Grp 2 (PlusCls alnum_ranges))))
          (ms (Grp 1 (Alt (str_re ''track'') (Alt (str_re ''album'') (str_re ''playlist''))))
             (drop (length ''open.spotify.com/'') s, Map.empty)))
      else [])"
  unfolding spotify_regex_def
  by (simp add: ms_str_re del: ms.simps(4,5,6))

lemma ms_spotify_hit:
  assumes t: "t \<in> {''track'', ''album'', ''playlist''}"
    and ne: "takeWhile is_alnum r \<noteq> []"
  shows "\<exists>tl. ms spotify_regex (''open.spotify.com/'' @ t @ ''/'' @ r, Map.empty) =
           (dropWhile is_alnum r, [1 \<mapsto> t, 2 \<mapsto> takeWhile is_alnum r]) # tl"
proof -
  from ms_Grp_PlusCls_hd [of alnum_ranges r 2 "[1 \<mapsto> t]"] ne
  obtain tl where tl: "ms (Grp 2 (PlusCls alnum_ranges)) (r, [1 \<mapsto> t]) =
      (dropWhile is_alnum r, [1 \<mapsto> t, 2 \<mapsto> takeWhile is_alnum r]) # tl"
    by (auto simp: is_alnum_eq)
  from t consider "t = ''track''" | "t = ''album''" | "t = ''playlist''" by blast
  then show ?thesis
  proof cases
    case 1
    show ?thesis using tl unfolding 1 by (simp add: ms_spotify_unfold ms_type_re del: ms.simps(4,5,6))
  next
    case 2
    show ?thesis using tl unfolding 2 by (simp add: ms_spotify_unfold ms_type_re del: ms.simps(4,5,6))
  next
    case 3
    show ?thesis using tl unfolding 3 by (simp add: ms_spotify_unfold ms_type_re del: ms.simps(4,5,6))
  qed
qed

lemma ms_spotify_miss:
  assumes "ms spotify_regex (s, Map.empty) \<noteq> []"
  shows "\<exists>t r. s = ''open.spotify.com/'' @ t @ ''/'' @ r \<and>
           t \<in> {''track'', ''album'', ''playlist''} \<and> takeWhile is_alnum r \<noteq> []"
proof -
  from assms have p: "prefix ''open.spotify.com/'' s"
    by (simp add: ms_spotify_unfold del: ms.simps split: if_splits)
  then obtain s1 where s: "s = ''open.spotify.com/'' @ s1" by (auto simp: prefix_def)
  have tail: "\<And>u g. ms (Grp 2 (PlusCls alnum_ranges)) (u, g) \<noteq> [] \<Longrightarrow> takeWhile is_alnum u \<noteq> []"
    by (auto simp: is_alnum_eq)
  have d: "drop (length ''open.spotify.com/'') s = s1" unfolding s by simp
  consider "prefix ''track'' s1" | "\<not> prefix ''track'' s1" "prefix ''album'' s1"
    | "\<not> prefix ''track'' s1" "\<not> prefix ''album'' s1" "prefix ''playlist'' s1"
    | "\<not> prefix ''track'' s1" "\<not> prefix ''album'' s1" "\<not> prefix ''playlist'' s1"
    by blast
  then show ?thesis
  proof cases
    case 1
    then obtain s2 where s2: "s1 = ''track'' @ s2" by (auto simp: prefix_def)
    from assms p 1 d s2 have ne: "concat (map (ms (Grp 2 (PlusCls alnum_ranges))) (ms (Lit CHR ''/'') (s2, [1 \<mapsto> ''track'']))) \<noteq> []"
      by (simp add: ms_spotify_unfold ms_type_re del: ms.simps(4,5,6))
    then obtain r where r: "s2 = CHR ''/'' # r" and "ms (Grp 2 (PlusCls alnum_ranges)) (r, [1 \<mapsto> ''track'']) \<noteq> []"
      by (cases s2) (auto simp del: ms.simps(5,6) split: if_splits)
    with tail have "takeWhile is_alnum r \<noteq> []" by blast
    with s s2 r show ?thesis by (intro exI [of _ "''track''"] exI [of _ r]) simp
  next
    case 2
    then obtain s2 where s2: "s1 = ''album'' @ s2" by (auto simp: prefix_def)
    from assms p 2 d s2 have ne: "concat (map (ms (Grp 2 (PlusCls alnum_ranges))) (ms (Lit CHR ''/'') (s2, [1 \<mapsto> ''album'']))) \<noteq> []"
      by (simp add: ms_spotify_unfold ms_type_re del: ms.simps(4,5,6))
    then obtain r where r: "s2 = CHR ''/'' # r" and "ms (Grp 2 (PlusCls alnum_ranges)) (r, [1 \<mapsto> ''album'']) \<noteq> []"
      by (cases s2) (auto simp del: ms.simps(5,6) split: if_splits)
    with tail have "takeWhile is_alnum r \<noteq> []" by blast
    with s s2 r show ?thesis by (intro exI [of _ "''album''"] exI [of _ r]) simp
  next
    case 3
    then obtain s2 where s2: "s1 = ''playlist'' @ s2" by (auto simp: prefix_def)
    from assms p 3 d s2 have ne: "concat (map (ms (Grp 2 (PlusCls alnum_ranges))) (ms (Lit CHR ''/'') (s2, [1 \<mapsto> ''playlist'']))) \<noteq> []"
      by (simp add: ms_spotify_unfold ms_type_re del: ms.simps(4,5,6))
    then obtain r where r: "s2 = CHR ''/'' # r" and "ms (Grp 2 (PlusCls alnum_ranges)) (r, [1 \<mapsto> ''playlist'']) \<noteq> []"
      by (cases s2) (auto simp del: ms.simps(5,6) split: if_splits)
    with tail have "takeWhile is_alnum r \<noteq> []" by blast
    with s s2 r show ?thesis by (intro exI [of _ "''playlist''"] exI [of _ r]) simp
  next
    case 4
    with assms p d show ?thesis by (simp add: ms_spotify_unfold ms_type_re del: ms.simps(4,5,6))
  qed
qed

lemma re_search_None_append: "re_search r (pre @ suf) = None \<Longrightarrow> ms r (suf, Map.empty) = []"
proof (induction pre)
  case Nil
  then show ?case by (cases suf) (auto split: list.splits)
next
  case (Cons c pre)
  then show ?case by (auto split: list.splits)
qed

lemma re_search_Some:
  "re_search r s = Some g \<Longrightarrow>
   \<exists>pre suf rest tl. s = pre @ suf \<and> ms r (suf, Map.empty) = (rest, g) # tl \<and>
     (\<forall>pre' suf'. s = pre' @ suf' \<and> length pre' < length pre \<longrightarrow> ms r (suf', Map.empty) = [])"
proof (induction s)
  case Nil
  then obtain rest tl where "ms r ([], Map.empty) = (rest, g) # tl"
    by (auto split: list.splits)
  then show ?case by auto
next
  case (Cons c cs)
  show ?case
  proof (cases "ms r (c # cs, Map.empty)")
    case Nil
    with Cons.prems have "re_search r cs = Some g" by simp
    from Cons.IH [OF this] obtain pre suf rest tl where
      a: "cs = pre @ suf" and b: "ms r (suf, Map.empty) = (rest, g) # tl" and
      c: "\<forall>pre' suf'. cs = pre' @ suf' \<and> length pre' < length pre \<longrightarrow> ms r (suf', Map.empty) = []"
      by blast
    have "\<forall>pre' suf'. c # cs = pre' @ suf' \<and> length pre' < length (c # pre) \<longrightarrow> ms r (suf', Map.empty) = []"
    proof (intro allI impI)
      fix pre' suf'
      assume h: "c # cs = pre' @ suf' \<and> length pre' < length (c # pre)"
      show "ms r (suf', Map.empty) = []"
      proof (cases pre')
        case Nil
        with h Nil \<open>ms r (c # cs, Map.empty) = []\<close> show ?thesis by simp
      next
        case (Cons x p)
        with h have "cs = p @ suf'" "length p < length pre" by auto
        with c show ?thesis by blast
      qed
    qed
    moreover have "c # cs = (c # pre) @ suf" using a by simp
    ultimately show ?thesis using b by blast
  next
    case (Cons m tl)
    obtain rest g' where "m = (rest, g')" by (cases m)
    with Cons Cons.prems have "ms r (c # cs, Map.empty) = (rest, g) # tl" by simp
    then have "c # cs = [] @ (c # cs) \<and> ms r (c # cs, Map.empty) = (rest, g) # tl \<and>
       (\<forall>pre' suf'. c # cs = pre' @ suf' \<and> length pre' < length ([]::string) \<longrightarrow> ms r (suf', Map.empty) = [])"
      by simp
    then show ?thesis by blast
  qed
qed

lemma catalog_match_found:
  assumes "catalog_match s pre t i post"
  shows "ms spotify_regex (drop (length pre) s, Map.empty) \<noteq> []"
proof -
  from assms have s: "s = pre @ ''open.spotify.com/'' @ t @ ''/'' @ i @ post"
    and t: "t \<in> {''track'', ''album'', ''playlist''}" and i: "i \<noteq> []" "\<forall>c \<in> set i. is_alnum c"
    by (simp_all add: catalog_match_def)
  from i obtain c cs where "i = c # cs" "is_alnum c" by (cases i) auto
  then have "takeWhile is_alnum (i @ post) \<noteq> []" by simp
  from ms_spotify_hit [OF t this] s show ?thesis by auto
qed

lemma extract_none:
  assumes "re_search spotify_regex s = None"
  shows "\<not> (\<exists>pre t i post. catalog_match s pre t i post)"
proof
  assume "\<exists>pre t i post. catalog_match s pre t i post"
  then obtain pre t i post where m: "catalog_match s pre t i post" by blast
  then have "s = pre @ drop (length pre) s" by (simp add: catalog_match_def)
  with assms re_search_None_append [of spotify_regex pre "drop (length pre) s"]
  have "ms spotify_regex (drop (length pre) s, Map.empty) = []" by simp
  with catalog_match_found [OF m] show False by simp
qed

lemma extract_some:
  assumes "re_search spotify_regex s = Some g"
  shows "\<exists>pre t i post. catalog_match s pre t i post \<and>
           (\<forall>pre' t' i' post'. catalog_match s pre' t' i' post' \<longrightarrow> length pre \<le> length pre') \<and>
           (post = [] \<or> \<not> is_alnum (hd post)) \<and> g 1 = Some t \<and> g 2 = Some i"
proof -
  from re_search_Some [OF assms] obtain pre suf rest tl where
    s: "s = pre @ suf" and hd: "ms spotify_regex (suf, Map.empty) = (rest, g) # tl" and
    first: "\<forall>pre' suf'. s = pre' @ suf' \<and> length pre' < length pre \<longrightarrow>
              ms spotify_regex (suf', Map.empty) = []"
    by blast
  from hd have "ms spotify_regex (suf, Map.empty) \<noteq> []" by simp
  from ms_spotify_miss [OF this] obtain t r where
    suf: "suf = ''open.spotify.com/'' @ t @ ''/'' @ r" and
    t: "t \<in> {''track'', ''album'', ''playlist''}" and ne: "takeWhile is_alnum r \<noteq> []"
    by blast
  let ?i = "takeWhile is_alnum r" and ?post = "dropWhile is_alnum r"
  from ms_spotify_hit [OF t ne] hd suf have g: "g = [1 \<mapsto> t, 2 \<mapsto> ?i]" by auto
  have r: "r = ?i @ ?post" by simp
  have "\<forall>c \<in> set ?i. is_alnum c" by (auto dest: set_takeWhileD)
  with s suf t ne r have cm: "catalog_match s pre t ?i ?post"
    unfolding catalog_match_def by (metis append_assoc)
  have post: "?post = [] \<or> \<not> is_alnum (hd ?post)" by (metis hd_dropWhile)
  have left: "\<forall>pre' t' i' post'. catalog_match s pre' t' i' post' \<longrightarrow> length pre \<le> length pre'"
  proof (intro allI impI)
    fix pre' t' i' post'
    assume m: "catalog_match s pre' t' i' post'"
    show "length pre \<le> length pre'"
    proof (rule ccontr)
      assume "\<not> length pre \<le> length pre'"
      then have lt: "length pre' < length pre" by simp
      from m have "s = pre' @ drop (length pre') s" by (simp add: catalog_match_def)
      with first lt have "ms spotify_regex (drop (length pre') s, Map.empty) = []" by blast
      with catalog_match_found [OF m] show False by simp
    qed
  qed
  from g have "g 1 = Some t" "g 2 = Some ?i" by simp_all
  with cm left post show ?thesis by blast
qed

text \<open>
  Claim C1. For every input string: when the string contains the catalog pattern, the parser
  returns the type and the identifier of the leftmost occurrence, the identifier being the whole
  alphanumeric run after the slash (the character after it, if any, is not alphanumeric); when it
  does not, the parser returns \<open>(None, None)\<close>. The function is total: no input makes it raise.
\<close>

theorem extract_spotify_id_spec:
  "(if \<exists>pre t i post. catalog_match s pre t i post
    then \<exists>pre t i post. catalog_match s pre t i post \<and>
           (\<forall>pre' t' i' post'. catalog_match s pre' t' i' post' \<longrightarrow> length pre \<le> length pre') \<and>
           (post = [] \<or> \<not> is_alnum (hd post)) \<and>
           extract_spotify_id s = (Some t, Some i)
    else extract_spotify_id s = (None, None))"
proof (cases "re_search spotify_regex s")
  case None
  with extract_none [OF None] show ?thesis by (simp add: extract_spotify_id_def)
next
  case (Some g)
  from extract_some [OF Some] obtain pre t i post where
    h: "catalog_match s pre t i post"
       "\<forall>pre' t' i' post'. catalog_match s pre' t' i' post' \<longrightarrow> length pre \<le> length pre'"
       "post = [] \<or> \<not> is_alnum (hd post)" "g 1 = Some t" "g 2 = Some i"
    by blast
  then have "extract_spotify_id s = (Some t, Some i)" using Some by (simp add: extract_spotify_id_def)
  with h show ?thesis by auto
qed

theorem extract_spotify_id_spec_witness:
  "catalog_match ''https://open.spotify.com/track/abc123'' ''https://'' ''track'' ''abc123'' [] \<and>
   extract_spotify_id ''https://open.spotify.com/track/abc123'' = (Some ''track'', Some ''abc123'') \<and>
   extract_spotify_id ''open.spotify.com/album/abcDEF?si=1'' = (Some ''album'', Some ''abcDEF'') \<and>
   \<not> (\<exists>pre t i post. catalog_match ''not a url'' pre t i post)"
proof -
  have e2: "extract_spotify_id ''open.spotify.com/album/abcDEF?si=1'' = (Some ''album'', Some ''abcDEF'')"
    by code_simp
  have m: "catalog_match ''https://open.spotify.com/track/abc123'' ''https://'' ''track'' ''abc123'' []"
    by (simp add: catalog_match_def is_alnum_def alphanumerics_def)
  have e: "extract_spotify_id ''https://open.spotify.com/track/abc123'' = (Some ''track'', Some ''abc123'')"
    by code_simp
  have n: "extract_spotify_id ''not a url'' = (None, None)" by code_simp
  from extract_spotify_id_spec [of "''not a url''"] n
  have "\<not> (\<exists>pre t i post. catalog_match ''not a url'' pre t i post)"
    by (auto split: if_splits)
  with m e e2 show ?thesis by blast
qed

section \<open>Effects of the directory idiom, the downloader and the pool\<close>

lemma files_emit: "files (emit e w) = files w"
  by (simp add: emit_def)


lemma ensure_dir_fst: "fst (ensure_dir p w) = Inr ()"
  by (simp add: ensure_dir_def makedirs_def)


lemma ensure_dir_exists: "path_exists (files (snd (ensure_dir p w))) p"
  by (simp add: ensure_dir_def makedirs_def emit_def path_exists_def)


lemma path_join_nonempty: "b \<noteq> [] \<Longrightarrow> path_join d b \<noteq> []"
  by (auto simp: path_join_def)



lemma download_song_result:
  "fst (download_song y q d b ff w) = Some p \<Longrightarrow> p = path_join d (b @ ''.mp3'')"
  by (auto simp: download_song_def Let_def split: sum.splits list.splits option.splits prod.splits if_splits)


lemma process_track_path:
  "fst (process_track y d t w) = Inr (Some p) \<Longrightarrow> p \<noteq> []"
proof -
  assume a: "fst (process_track y d t w) = Inr (Some p)"
  have "\<exists>q b w1. fst (download_song y q d b ''ast'' w1) = Some p"
  proof (cases "build_query t")
    case (Inl e)
    with a show ?thesis by (simp add: process_track_def)
  next
    case q: (Inr q)
    show ?thesis
    proof (cases "base_filename_of t")
      case (Inl e)
      with a q show ?thesis by (simp add: process_track_def)
    next
      case (Inr b)
      with a q have "fst (download_song y q d b ''ast'' (emit (LogInfo (DownloadingTrack b)) w)) = Some p"
        by (simp add: process_track_def split: prod.splits)
      then show ?thesis by blast
    qed
  qed
  then obtain q b w1 where "fst (download_song y q d b ''ast'' w1) = Some p" by blast
  from download_song_result [OF this] show ?thesis by (simp add: path_join_nonempty)
qed

lemma run_tasks_length: "length (fst (run_tasks f items sched futs w)) = length futs"
  by (induction sched arbitrary: futs w) (auto split: prod.splits)

lemma run_tasks_inv:
  "\<forall>i<length futs. futs ! i = None \<or> (\<exists>wi. futs ! i = Some (fst (f (items ! i) wi))) \<Longrightarrow>
   \<forall>i<length futs. fst (run_tasks f items sched futs w) ! i = None \<or>
      (\<exists>wi. fst (run_tasks f items sched futs w) ! i = Some (fst (f (items ! i) wi)))"
proof (induction sched arbitrary: futs w)
  case Nil
  then show ?case by simp
next
  case (Cons i sched)
  show ?case
  proof (cases "i < length items \<and> i < length futs \<and> futs ! i = None")
    case True
    obtain r w1 where rw: "f (items ! i) w = (r, w1)" by (cases "f (items ! i) w")
    have "\<forall>j<length (futs[i := Some r]). futs[i := Some r] ! j = None \<or>
        (\<exists>wi. futs[i := Some r] ! j = Some (fst (f (items ! j) wi)))"
    proof (intro allI impI)
      fix j assume "j < length (futs[i := Some r])"
      then have j: "j < length futs" by simp
      show "futs[i := Some r] ! j = None \<or> (\<exists>wi. futs[i := Some r] ! j = Some (fst (f (items ! j) wi)))"
      proof (cases "j = i")
        case True
        with j rw have "futs[i := Some r] ! j = Some (fst (f (items ! j) w))" by simp
        then show ?thesis by blast
      next
        case False
        with j Cons.prems show ?thesis by simp
      qed
    qed
    from Cons.IH [OF this, of w1] True rw show ?thesis by simp
  next
    case False
    with Cons.IH [OF Cons.prems, of w] show ?thesis by auto
  qed
qed

lemma run_tasks_done:
  "\<forall>i<length futs. futs ! i \<noteq> None \<or> (i \<in> set sched \<and> i < length items) \<longrightarrow>
      fst (run_tasks f items sched futs w) ! i \<noteq> None"
proof (induction sched arbitrary: futs w)
  case Nil
  then show ?case by simp
next
  case (Cons i sched)
  show ?case
  proof (cases "i < length items \<and> i < length futs \<and> futs ! i = None")
    case True
    obtain r w1 where rw: "f (items ! i) w = (r, w1)" by (cases "f (items ! i) w")
    have eq: "fst (run_tasks f items (i # sched) futs w) = fst (run_tasks f items sched (futs[i := Some r]) w1)"
      using True rw by simp
    show ?thesis
    proof (intro allI impI)
      fix j assume j: "j < length futs" and h: "futs ! j \<noteq> None \<or> (j \<in> set (i # sched) \<and> j < length items)"
      have "futs[i := Some r] ! j \<noteq> None \<or> (j \<in> set sched \<and> j < length items)"
      proof (cases "j = i")
        case True
        with j show ?thesis by simp
      next
        case False
        with h show ?thesis by auto
      qed
      with Cons.IH [of "futs[i := Some r]" w1, rule_format, of j] j
      show "fst (run_tasks f items (i # sched) futs w) ! j \<noteq> None"
        unfolding eq by auto
    qed
  next
    case False
    then have eq: "fst (run_tasks f items (i # sched) futs w) = fst (run_tasks f items sched futs w)"
      by auto
    show ?thesis
    proof (intro allI impI)
      fix j assume j: "j < length futs" and h: "futs ! j \<noteq> None \<or> (j \<in> set (i # sched) \<and> j < length items)"
      have "futs ! j \<noteq> None \<or> (j \<in> set sched \<and> j < length items)"
      proof (cases "j = i")
        case True
        with False j h show ?thesis by auto
      next
        case False
        with h show ?thesis by auto
      qed
      with Cons.IH [of futs w, rule_format, of j] j
      show "fst (run_tasks f items (i # sched) futs w) ! j \<noteq> None"
        unfolding eq by auto
    qed
  qed
qed


lemma run_pool_length: "length (fst (run_pool f items sched w)) = length items"
  by (simp add: run_pool_def run_tasks_length)

lemma run_pool_complete: "None \<notin> set (fst (run_pool f items sched w))"
proof
  assume "None \<in> set (fst (run_pool f items sched w))"
  then obtain i where i: "i < length items" "fst (run_pool f items sched w) ! i = None"
    by (metis in_set_conv_nth run_pool_length)
  from run_tasks_done [of "replicate (length items) None" "sched @ [0 ..< length items]" items f w] i(1)
  have "fst (run_pool f items sched w) ! i \<noteq> None" by (simp add: run_pool_def)
  with i(2) show False by simp
qed

lemma run_pool_results:
  "i < length items \<Longrightarrow> \<exists>wi. fst (run_pool f items sched w) ! i = Some (fst (f (items ! i) wi))"
proof -
  assume i: "i < length items"
  have "\<forall>i<length (replicate (length items) (None :: future)).
      replicate (length items) (None :: future) ! i = None \<or>
      (\<exists>wi. replicate (length items) None ! i = Some (fst (f (items ! i) wi)))"
    by simp
  from run_tasks_inv [OF this, of "sched @ [0 ..< length items]" w] i
  have "fst (run_pool f items sched w) ! i = None \<or>
      (\<exists>wi. fst (run_pool f items sched w) ! i = Some (fst (f (items ! i) wi)))"
    by (simp add: run_pool_def)
  moreover have "fst (run_pool f items sched w) ! i \<in> set (fst (run_pool f items sched w))"
    using i by (simp add: run_pool_length)
  ultimately show ?thesis using run_pool_complete [of f items sched w] by metis
qed



lemma collect_paths:
  "None \<notin> set futs \<Longrightarrow> \<forall>p. Some (Inr (Some p)) \<in> set futs \<longrightarrow> p \<noteq> [] \<Longrightarrow>
   collect futs acc = Some (Inr d) \<Longrightarrow> d = acc @ List.map_filter path_of_result (map the futs)"
  by (induction futs acc arbitrary: d rule: collect.induct)
     (auto simp: map_filter_simps split: option.splits if_splits)

lemma collect_no_exn:
  "None \<notin> set futs \<Longrightarrow> \<not> list_ex raised futs \<Longrightarrow> \<exists>d. collect futs acc = Some (Inr d)"
  by (induction futs acc rule: collect.induct) (auto split: option.splits)

lemma count_paths:
  "None \<notin> set futs \<Longrightarrow>
   length (List.map_filter path_of_result (map the futs)) = length (filter has_path futs)"
proof (induction futs)
  case Nil
  then show ?case by (simp add: map_filter_simps)
next
  case (Cons fut futs)
  then obtain r where "fut = Some r" by (cases fut) auto
  with Cons show ?case by (cases r rule: path_of_result.cases) (auto simp: map_filter_simps)
qed

section \<open>The report of a collection run counts the downloaded tracks\<close>

lemma download_many_eq:
  "download_many y sched dd name items w =
     (case collect (fst (run_pool (process_track y (path_join dd (sanitize_filename name))) items sched
               (emit (LogInfo (DownloadingInto (length items) (path_join dd (sanitize_filename name))))
                  (snd (ensure_dir (path_join dd (sanitize_filename name)) w))))) [] of
        None \<Rightarrow> None
      | Some (Inl e) \<Rightarrow>
          Some (Inl e, snd (run_pool (process_track y (path_join dd (sanitize_filename name))) items sched
               (emit (LogInfo (DownloadingInto (length items) (path_join dd (sanitize_filename name))))
                  (snd (ensure_dir (path_join dd (sanitize_filename name)) w)))))
      | Some (Inr downloaded) \<Rightarrow>
          Some (Inr (ManyDone downloaded),
            emit (if downloaded \<noteq> [] then
                    LogInfo (DownloadedCount (length downloaded) (path_join dd (sanitize_filename name)))
                  else LogError FailedAll)
              (snd (run_pool (process_track y (path_join dd (sanitize_filename name))) items sched
               (emit (LogInfo (DownloadingInto (length items) (path_join dd (sanitize_filename name))))
                  (snd (ensure_dir (path_join dd (sanitize_filename name)) w)))))))"
proof -
  obtain r w1 where e: "ensure_dir (path_join dd (sanitize_filename name)) w = (r, w1)"
    by (cases "ensure_dir (path_join dd (sanitize_filename name)) w")
  with ensure_dir_fst [of "path_join dd (sanitize_filename name)" w] have r: "r = Inr ()" by simp
  show ?thesis
    unfolding download_many_def Let_def e r
    by (simp split: prod.splits option.splits sum.splits)
qed

lemma pool_paths_nonempty:
  assumes "Some (Inr (Some p)) \<in> set (fst (run_pool (process_track y d) items sched w))"
  shows "p \<noteq> []"
proof -
  from assms obtain i where i: "i < length items"
    "fst (run_pool (process_track y d) items sched w) ! i = Some (Inr (Some p))"
    by (metis in_set_conv_nth run_pool_length)
  from run_pool_results [OF i(1), of "process_track y d" sched w] i(2)
  obtain wi where "fst (process_track y d (items ! i) wi) = Inr (Some p)" by auto
  then show ?thesis by (rule process_track_path)
qed

text \<open>
  Claim C6. In a run over a collection of \<open>N\<close> tracks, under any schedule of the pool, let
  \<open>futures\<close> be what the \<open>N\<close> tasks left, none of them an exception, so that each task returned
  a path or \<open>None\<close>, and let \<open>M\<close> be the number of those that returned a path. Then all \<open>N\<close>
  futures are finished, the run returns normally with the list of the downloaded paths, of
  length \<open>M\<close>, and its last log record reports \<open>M\<close>: the count \<open>M\<close> with the folder when
  \<open>M > 0\<close>, and the error record that no track of the collection was downloaded when \<open>M = 0\<close>.
\<close>

theorem collection_report:
  assumes pool: "run_pool (process_track y (path_join dd (sanitize_filename name))) items sched
                   (emit (LogInfo (DownloadingInto (length items) (path_join dd (sanitize_filename name))))
                      (snd (ensure_dir (path_join dd (sanitize_filename name)) w))) = (futures, w2)"
    and ok: "\<not> list_ex raised futures"
  shows "length futures = length items \<and> None \<notin> set futures \<and>
    (\<exists>downloaded.
       download_many y sched dd name items w =
         Some (Inr (ManyDone downloaded),
               emit (if length (filter has_path futures) = 0 then LogError FailedAll
                     else LogInfo (DownloadedCount (length (filter has_path futures))
                            (path_join dd (sanitize_filename name)))) w2) \<and>
       length downloaded = length (filter has_path futures))"
proof -
  let ?folder = "path_join dd (sanitize_filename name)"
  let ?pool = "run_pool (process_track y ?folder) items sched
                 (emit (LogInfo (DownloadingInto (length items) ?folder)) (snd (ensure_dir ?folder w)))"
  have f: "fst ?pool = futures" and s: "snd ?pool = w2" using pool by simp_all
  have len: "length futures = length items" using run_pool_length [of "process_track y ?folder" items sched] f
    by metis
  have none: "None \<notin> set futures" using run_pool_complete [of "process_track y ?folder" items sched] f
    by metis
  have ne: "\<forall>p. Some (Inr (Some p)) \<in> set futures \<longrightarrow> p \<noteq> []"
    using pool_paths_nonempty [of _ y ?folder items sched] f by metis
  from collect_no_exn [OF none ok, of "[]"] obtain d where d: "collect futures [] = Some (Inr d)" by blast
  from collect_paths [OF none ne d] have "d = List.map_filter path_of_result (map the futures)" by simp
  with count_paths [OF none] have cnt: "length d = length (filter has_path futures)" by simp
  have "download_many y sched dd name items w =
      Some (Inr (ManyDone d),
            emit (if length (filter has_path futures) = 0 then LogError FailedAll
                  else LogInfo (DownloadedCount (length (filter has_path futures)) ?folder)) w2)"
    unfolding download_many_eq f s d using cnt by auto
  with len none cnt show ?thesis by blast
qed

text \<open>
  Two tracks of which one is found: the count is 1. Two tracks of which none is found: the run
  ends normally with the error record.
\<close>

theorem collection_report_witness:
  "(\<exists>downloaded.
      map_option fst (download_many ydl_only_t1 [] ''/home/u/downloads'' ''Al'' [song ''t1'', song ''t2''] w0) =
        Some (Inr (ManyDone downloaded)) \<and> length downloaded = 1) \<and>
   map_option (last \<circ> trace \<circ> snd)
       (download_many ydl_only_t1 [] ''/home/u/downloads'' ''Al'' [song ''t1'', song ''t2''] w0) =
     Some (LogInfo (DownloadedCount 1 ''/home/u/downloads/Al'')) \<and>
   (\<exists>downloaded.
      map_option fst (download_many ydl_no_results [] ''/home/u/downloads'' ''Al'' [song ''t1'', song ''t2''] w0) =
        Some (Inr (ManyDone downloaded)) \<and> length downloaded = 0) \<and>
   map_option (last \<circ> trace \<circ> snd)
       (download_many ydl_no_results [] ''/home/u/downloads'' ''Al'' [song ''t1'', song ''t2''] w0) =
     Some (LogError FailedAll)"
proof -
  let ?items = "[song ''t1'', song ''t2'']"
  let ?R1 = "run_pool (process_track ydl_only_t1 (path_join ''/home/u/downloads'' (sanitize_filename ''Al'')))
               ?items []
               (emit (LogInfo (DownloadingInto (length ?items)
                        (path_join ''/home/u/downloads'' (sanitize_filename ''Al''))))
                  (snd (ensure_dir (path_join ''/home/u/downloads'' (sanitize_filename ''Al'')) w0)))"
  let ?R0 = "run_pool (process_track ydl_no_results (path_join ''/home/u/downloads'' (sanitize_filename ''Al'')))
               ?items []
               (emit (LogInfo (DownloadingInto (length ?items)
                        (path_join ''/home/u/downloads'' (sanitize_filename ''Al''))))
                  (snd (ensure_dir (path_join ''/home/u/downloads'' (sanitize_filename ''Al'')) w0)))"
  have j: "path_join ''/home/u/downloads'' (sanitize_filename ''Al'') = ''/home/u/downloads/Al''"
    by code_simp
  have r1: "fst ?R1 = [Some (Inr (Some ''/home/u/downloads/Al/A - t1.mp3'')), Some (Inr None)]"
    by code_simp
  have r0: "fst ?R0 = [Some (Inr None), Some (Inr None)]"
    by code_simp
  have ok1: "\<not> list_ex raised (fst ?R1)" by (simp only: r1) simp
  have ok0: "\<not> list_ex raised (fst ?R0)" by (simp only: r0) simp
  have c1: "length (filter has_path (fst ?R1)) = 1" by (simp only: r1) simp
  have c0: "length (filter has_path (fst ?R0)) = 0" by (simp only: r0) simp
  have p1: "?R1 = (fst ?R1, snd ?R1)" by (simp only: prod.collapse)
  have p0: "?R0 = (fst ?R0, snd ?R0)" by (simp only: prod.collapse)
  from collection_report [OF p1 ok1]
  obtain d1 where
    "download_many ydl_only_t1 [] ''/home/u/downloads'' ''Al'' ?items w0 =
       Some (Inr (ManyDone d1),
             emit (if length (filter has_path (fst ?R1)) = 0 then LogError FailedAll
                   else LogInfo (DownloadedCount (length (filter has_path (fst ?R1)))
                          (path_join ''/home/u/downloads'' (sanitize_filename ''Al'')))) (snd ?R1))"
    "length d1 = length (filter has_path (fst ?R1))"
    by blast
  then have a: "download_many ydl_only_t1 [] ''/home/u/downloads'' ''Al'' ?items w0 =
       Some (Inr (ManyDone d1), emit (LogInfo (DownloadedCount 1 ''/home/u/downloads/Al'')) (snd ?R1))"
    and la: "length d1 = 1"
    by (simp_all only: c1) (simp_all add: j)
  from collection_report [OF p0 ok0]
  obtain d0 where
    "download_many ydl_no_results [] ''/home/u/downloads'' ''Al'' ?items w0 =
       Some (Inr (ManyDone d0),
             emit (if length (filter has_path (fst ?R0)) = 0 then LogError FailedAll
                   else LogInfo (DownloadedCount (length (filter has_path (fst ?R0)))
                          (path_join ''/home/u/downloads'' (sanitize_filename ''Al'')))) (snd ?R0))"
    "length d0 = length (filter has_path (fst ?R0))"
    by blast
  then have b: "download_many ydl_no_results [] ''/home/u/downloads'' ''Al'' ?items w0 =
       Some (Inr (ManyDone d0), emit (LogError FailedAll) (snd ?R0))"
    and lb: "length d0 = 0"
    by (simp_all only: c0) (simp_all add: j)
  from la lb show ?thesis
    by (simp only: a b) (simp add: emit_def)
qed

section \<open>Downloaded paths are collected in the order of submission\<close>

text \<open>
  Claim C9. Whenever a run over a collection ends normally, under any schedule of the pool, the
  list of downloaded paths is the list of the results of the tasks in the order of submission
  (the result number \<open>i\<close> is what \<open>process_track\<close> returned for the item number \<open>i\<close>), with the
  absent results left out. The order in which the tasks finished plays no part.
\<close>

theorem downloaded_in_submission_order:
  assumes "download_many y sched dd name items w = Some (Inr (ManyDone downloaded), w')"
  shows "\<exists>results. length results = length items \<and>
           (\<forall>i<length items. \<exists>wi. results ! i =
               fst (process_track y (path_join dd (sanitize_filename name)) (items ! i) wi)) \<and>
           downloaded = List.map_filter path_of_result results"
proof -
  let ?folder = "path_join dd (sanitize_filename name)"
  let ?pool = "run_pool (process_track y ?folder) items sched
                 (emit (LogInfo (DownloadingInto (length items) ?folder)) (snd (ensure_dir ?folder w)))"
  let ?futs = "fst ?pool"
  have none: "None \<notin> set ?futs" by (rule run_pool_complete)
  have ne: "\<forall>p. Some (Inr (Some p)) \<in> set ?futs \<longrightarrow> p \<noteq> []"
    using pool_paths_nonempty by blast
  from assms have d: "collect ?futs [] = Some (Inr downloaded)"
    unfolding download_many_eq by (auto split: option.splits sum.splits)
  from collect_paths [OF none ne d] have eq: "downloaded = List.map_filter path_of_result (map the ?futs)"
    by simp
  have len: "length (map the ?futs) = length items" by (simp add: run_pool_length)
  have "\<forall>i<length items. \<exists>wi. map the ?futs ! i = fst (process_track y ?folder (items ! i) wi)"
  proof (intro allI impI)
    fix i assume i: "i < length items"
    from run_pool_results [OF i, of "process_track y ?folder" sched] obtain wi where
      "?futs ! i = Some (fst (process_track y ?folder (items ! i) wi))" by blast
    with i show "\<exists>wi. map the ?futs ! i = fst (process_track y ?folder (items ! i) wi)"
      by (auto simp: run_pool_length)
  qed
  with len eq show ?thesis by blast
qed

text \<open>
  A pool that finishes the second task before the first: the log shows the second track first,
  the list of downloaded paths has the first track first.
\<close>

theorem downloaded_in_submission_order_witness:
  "map_option fst (download_many ydl_ok [1, 0] ''/home/u/downloads'' ''Al'' [song ''t1'', song ''t2''] w0) =
     Some (Inr (ManyDone [''/home/u/downloads/Al/A - t1.mp3'', ''/home/u/downloads/Al/A - t2.mp3''])) \<and>
   map_option (filter is_log \<circ> trace \<circ> snd)
       (download_many ydl_ok [1, 0] ''/home/u/downloads'' ''Al'' [song ''t1'', song ''t2''] w0) =
     Some [LogInfo (DownloadingInto 2 ''/home/u/downloads/Al''),
           LogInfo (DownloadingTrack ''A - t2''),
           LogInfo (FoundVideo (Some ''https://video.example/v1'')),
           LogInfo (DownloadingTrack ''A - t1''),
           LogInfo (FoundVideo (Some ''https://video.example/v1'')),
           LogInfo (DownloadedCount 2 ''/home/u/downloads/Al'')] \<and>
   (\<exists>results. length results = 2 \<and>
      [''/home/u/downloads/Al/A - t1.mp3'', ''/home/u/downloads/Al/A - t2.mp3''] =
        List.map_filter path_of_result results)"
proof -
  let ?run = "download_many ydl_ok [1, 0] ''/home/u/downloads'' ''Al'' [song ''t1'', song ''t2''] w0"
  have a: "map_option fst ?run =
     Some (Inr (ManyDone [''/home/u/downloads/Al/A - t1.mp3'', ''/home/u/downloads/Al/A - t2.mp3'']))"
    by code_simp
  have t: "map_option (filter is_log \<circ> trace \<circ> snd) ?run =
     Some [LogInfo (DownloadingInto 2 ''/home/u/downloads/Al''),
           LogInfo (DownloadingTrack ''A - t2''),
           LogInfo (FoundVideo (Some ''https://video.example/v1'')),
           LogInfo (DownloadingTrack ''A - t1''),
           LogInfo (FoundVideo (Some ''https://video.example/v1'')),
           LogInfo (DownloadedCount 2 ''/home/u/downloads/Al'')]"
    by code_simp
  from a obtain w' where
    "?run = Some (Inr (ManyDone [''/home/u/downloads/Al/A - t1.mp3'', ''/home/u/downloads/Al/A - t2.mp3'']), w')"
    by (cases ?run) auto
  from downloaded_in_submission_order [OF this]
  obtain results :: "(exn + string option) list" where
    "length results = length [song ''t1'', song ''t2'']"
    "[''/home/u/downloads/Al/A - t1.mp3'', ''/home/u/downloads/Al/A - t2.mp3''] =
        List.map_filter path_of_result results"
    by blast
  then have "\<exists>results. length results = 2 \<and>
      [''/home/u/downloads/Al/A - t1.mp3'', ''/home/u/downloads/Al/A - t2.mp3''] =
        List.map_filter path_of_result results"
    by (intro exI [of _ results]) simp
  with a t show ?thesis by simp
qed

section \<open>Dispatch between the single flow and the collection flow\<close>







section \<open>The query builder\<close>

lemma names_of_named: "names_of (map (\<lambda>n. \<lparr>a_name = Some n\<rparr>) ns) = Inr ns"
  by (induction ns) simp_all

lemma join_Cons: "join sep (x # xs) = x @ concat (map (\<lambda>y. sep @ y) xs)"
  by (induction xs arbitrary: x) simp_all

text \<open>
  Claim C3. For every track record whose artists are named \<open>a1, ..., an\<close> and whose title is
  \<open>t\<close>, \<open>build_query\<close> returns the names joined by a comma and a space (the first name,
  then every other name after \<open>", "\<close>), then \<open>" - "\<close>, the title and
  \<open>" official audio"\<close>. A missing list of artists or a missing title gives an empty segment and
  no error. \<open>build_query\<close> is a function of the track record alone: it reads and writes
  nothing else, and the same record always gives the same string. The artists \<open>A\<close> and \<open>B\<close>
  with the title \<open>Song\<close> give \<open>A, B - Song official audio\<close>.
\<close>

theorem build_query_spec:
  "build_query \<lparr>t_artists = map_option (map (\<lambda>n. \<lparr>a_name = Some n\<rparr>)) artists, t_name = title\<rparr> =
     Inr ((case (case artists of None \<Rightarrow> [] | Some ns \<Rightarrow> ns) of
             [] \<Rightarrow> []
           | a # as \<Rightarrow> a @ concat (map (\<lambda>b. '', '' @ b) as)) @
          '' - '' @ (case title of None \<Rightarrow> [] | Some t \<Rightarrow> t) @ '' official audio'') \<and>
   build_query \<lparr>t_artists = Some [\<lparr>a_name = Some ''A''\<rparr>, \<lparr>a_name = Some ''B''\<rparr>], t_name = Some ''Song''\<rparr> =
     Inr ''A, B - Song official audio'' \<and>
   build_query \<lparr>t_artists = None, t_name = None\<rparr> = Inr '' -  official audio''"
proof -
  have "build_query \<lparr>t_artists = map_option (map (\<lambda>n. \<lparr>a_name = Some n\<rparr>)) artists, t_name = title\<rparr> =
     Inr (join '', '' (case artists of None \<Rightarrow> [] | Some ns \<Rightarrow> ns) @ '' - '' @
          (case title of None \<Rightarrow> [] | Some t \<Rightarrow> t) @ '' official audio'')"
    by (cases artists) (simp_all add: build_query_def artist_line_def title_of_def names_of_named)
  moreover have "join '', '' ns = (case ns of [] \<Rightarrow> [] | a # as \<Rightarrow> a @ concat (map (\<lambda>b. '', '' @ b) as))" for ns
    by (cases ns) (auto simp: join_Cons intro!: arg_cong [where f = concat])
  moreover have "build_query \<lparr>t_artists = Some [\<lparr>a_name = Some ''A''\<rparr>, \<lparr>a_name = Some ''B''\<rparr>], t_name = Some ''Song''\<rparr> =
     Inr ''A, B - Song official audio''"
    by (simp add: build_query_def artist_line_def title_of_def)
  moreover have "build_query \<lparr>t_artists = None, t_name = None\<rparr> = Inr '' -  official audio''"
    by (simp add: build_query_def artist_line_def title_of_def)
  ultimately show ?thesis by simp
qed

section \<open>Failures of the downloader\<close>

text \<open>
  Claim C7, as amended. When the search gives no entry (the key \<open>entries\<close> is absent or the list
  is empty), \<open>download_song\<close> returns \<open>None\<close> and its only effect is the search: it logs
  nothing. When the download of the first entry raises (a failed download or a failed
  transcoding), \<open>download_song\<close> returns \<open>None\<close>, keeps the files the library left, and logs
  exactly one error record, holding the exception. In neither case does an exception reach the
  caller: the result of \<open>download_song\<close> is a path or \<open>None\<close>.
\<close>

theorem download_song_failure:
  "(ydl_extract_info y \<lparr>outtmpl = path_join d (b @ ''.%(ext)s''), ffmpeg_location = ff\<rparr> (''ytsearch:'' @ q) = Inr i \<and>
      (entries i = None \<or> entries i = Some []) \<longrightarrow>
    download_song y q d b ff w =
      (None, \<lparr>files = files w,
              trace = trace w @ [YdlSearch (path_join d (b @ ''.%(ext)s'')) (''ytsearch:'' @ q)]\<rparr>)) \<and>
   (ydl_extract_info y \<lparr>outtmpl = path_join d (b @ ''.%(ext)s''), ffmpeg_location = ff\<rparr> (''ytsearch:'' @ q) = Inr i \<and>
      entries i = Some (v # vs) \<and>
      ydl_download y \<lparr>outtmpl = path_join d (b @ ''.%(ext)s''), ffmpeg_location = ff\<rparr> (webpage_url v) (files w) = (Some e, f) \<longrightarrow>
    download_song y q d b ff w =
      (None, \<lparr>files = f,
              trace = trace w @ [YdlSearch (path_join d (b @ ''.%(ext)s'')) (''ytsearch:'' @ q),
                                 LogInfo (FoundVideo (webpage_url v)),
                                 YdlDownload (path_join d (b @ ''.%(ext)s'')) (webpage_url v),
                                 LogError (DownloadError e)]\<rparr>))"
  by (auto simp: download_song_def Let_def emit_def split: list.splits option.splits)

text \<open>
  The wording of the specification has every such failure logged. A search without results leaves no
  log record: the trace of the call holds the search and nothing else.
\<close>

theorem zero_results_are_not_logged:
  "download_song ydl_no_results ''q'' ''/d'' ''b'' ''ast'' w0 =
     (None, \<lparr>files = {}, trace = [YdlSearch ''/d/b.%(ext)s'' ''ytsearch:q'']\<rparr>) \<and>
   log_records (snd (download_song ydl_no_results ''q'' ''/d'' ''b'' ''ast'' w0)) = []"
  by (simp add: download_song_def ydl_no_results_def path_join_def emit_def w0_def log_records_def)

text \<open>
  Both cases on example libraries: one that finds nothing, one whose download raises.
\<close>

theorem download_song_failure_witness:
  "download_song ydl_no_results ''q'' ''/d'' ''b'' ''ast'' w0 =
     (None, \<lparr>files = {}, trace = [YdlSearch ''/d/b.%(ext)s'' ''ytsearch:q'']\<rparr>) \<and>
   download_song ydl_raises_late ''q'' ''/d'' ''b'' ''ast'' w0 =
     (None, \<lparr>files = {[''d'', ''b.mp3'']},
             trace = [YdlSearch ''/d/b.%(ext)s'' ''ytsearch:q'',
                      LogInfo (FoundVideo (Some ''https://video.example/v1'')),
                      YdlDownload ''/d/b.%(ext)s'' (Some ''https://video.example/v1''),
                      LogError (DownloadError (LibError ''postprocessing failed''))]\<rparr>)"
proof -
  have n: "norm_path (mp3_of ''/d/b.%(ext)s'') = [''d'', ''b.mp3'']" by code_simp
  from download_song_failure [where y = ydl_no_results and q = "''q''" and d = "''/d''" and b = "''b''"
      and ff = "''ast''" and w = w0 and i = "\<lparr>entries = Some []\<rparr>" and v = "\<lparr>webpage_url = None\<rparr>"
      and vs = "[]" and e = IndexError and f = "{}"]
  have a: "download_song ydl_no_results ''q'' ''/d'' ''b'' ''ast'' w0 =
     (None, \<lparr>files = {}, trace = [YdlSearch ''/d/b.%(ext)s'' ''ytsearch:q'']\<rparr>)"
    by (simp add: ydl_no_results_def path_join_def emit_def w0_def)
  from download_song_failure [where y = ydl_raises_late and q = "''q''" and d = "''/d''" and b = "''b''"
      and ff = "''ast''" and w = w0 and i = one_video
      and v = "\<lparr>webpage_url = Some ''https://video.example/v1''\<rparr>"
      and vs = "[]" and e = "LibError ''postprocessing failed''" and f = "{[''d'', ''b.mp3'']}"] n
  have b: "download_song ydl_raises_late ''q'' ''/d'' ''b'' ''ast'' w0 =
     (None, \<lparr>files = {[''d'', ''b.mp3'']},
             trace = [YdlSearch ''/d/b.%(ext)s'' ''ytsearch:q'',
                      LogInfo (FoundVideo (Some ''https://video.example/v1'')),
                      YdlDownload ''/d/b.%(ext)s'' (Some ''https://video.example/v1''),
                      LogError (DownloadError (LibError ''postprocessing failed''))]\<rparr>)"
    by (simp add: ydl_raises_late_def one_video_def path_join_def w0_def)
  from a b show ?thesis by simp
qed

section \<open>Success of the downloader\<close>

text \<open>
  Claim C8, as amended. \<open>download_song\<close> reports success exactly when the search gives at least one
  entry, the download of the first entry returns without raising, and a file exists at the
  expected path afterwards; the value is then that path, \<open>os.path.join(dir, base + ".mp3")\<close>. In
  every other case it reports absence, whatever files exist. The expected path is
  \<open>dir/base.mp3\<close> when \<open>dir\<close> is not empty and does not end in a slash and \<open>base\<close> has no
  slash.
\<close>

theorem download_song_success_iff:
  "fst (download_song y q d b ff w) =
     (if \<exists>i v vs f.
           ydl_extract_info y \<lparr>outtmpl = path_join d (b @ ''.%(ext)s''), ffmpeg_location = ff\<rparr> (''ytsearch:'' @ q) = Inr i \<and>
           entries i = Some (v # vs) \<and>
           ydl_download y \<lparr>outtmpl = path_join d (b @ ''.%(ext)s''), ffmpeg_location = ff\<rparr> (webpage_url v) (files w) = (None, f) \<and>
           path_exists f (path_join d (b @ ''.mp3''))
      then Some (path_join d (b @ ''.mp3'')) else None) \<and>
   (d \<noteq> [] \<and> last d \<noteq> CHR ''/'' \<and> CHR ''/'' \<notin> set b \<longrightarrow>
      path_join d (b @ ''.mp3'') = d @ ''/'' @ b @ ''.mp3'')"
proof -
  have "fst (download_song y q d b ff w) =
     (if \<exists>i v vs f.
           ydl_extract_info y \<lparr>outtmpl = path_join d (b @ ''.%(ext)s''), ffmpeg_location = ff\<rparr> (''ytsearch:'' @ q) = Inr i \<and>
           entries i = Some (v # vs) \<and>
           ydl_download y \<lparr>outtmpl = path_join d (b @ ''.%(ext)s''), ffmpeg_location = ff\<rparr> (webpage_url v) (files w) = (None, f) \<and>
           path_exists f (path_join d (b @ ''.mp3''))
      then Some (path_join d (b @ ''.mp3'')) else None)"
    by (auto simp: download_song_def Let_def emit_def split: sum.splits list.splits option.splits prod.splits)
  moreover have "d \<noteq> [] \<and> last d \<noteq> CHR ''/'' \<and> CHR ''/'' \<notin> set b \<longrightarrow>
      path_join d (b @ ''.mp3'') = d @ ''/'' @ b @ ''.mp3''"
    by (cases b) (auto simp: path_join_def)
  ultimately show ?thesis by simp
qed

text \<open>
  The wording of the specification makes the file at the expected path sufficient for success. A
  download that raises after the file \<open>/d/b.mp3\<close> was written is reported as absence, although
  the file exists.
\<close>

theorem raising_download_reports_absence:
  "download_song ydl_raises_late ''q'' ''/d'' ''b'' ''ast'' w0 =
     (None, \<lparr>files = {[''d'', ''b.mp3'']},
             trace = [YdlSearch ''/d/b.%(ext)s'' ''ytsearch:q'',
                      LogInfo (FoundVideo (Some ''https://video.example/v1'')),
                      YdlDownload ''/d/b.%(ext)s'' (Some ''https://video.example/v1''),
                      LogError (DownloadError (LibError ''postprocessing failed''))]\<rparr>) \<and>
   path_exists {[''d'', ''b.mp3'']} ''/d/b.mp3''"
proof -
  have n: "norm_path (mp3_of ''/d/b.%(ext)s'') = [''d'', ''b.mp3'']" by code_simp
  have p: "path_exists {[''d'', ''b.mp3'']} ''/d/b.mp3''" by code_simp
  from n p show ?thesis
    by (simp add: download_song_def Let_def ydl_raises_late_def one_video_def path_join_def emit_def w0_def)
qed

text \<open>
  A library that writes the expected file gives the expected path; one that finds nothing gives
  absence.
\<close>

theorem download_song_success_iff_witness:
  "fst (download_song ydl_ok ''q'' ''/d'' ''b'' ''ast'' w0) = Some ''/d/b.mp3'' \<and>
   fst (download_song ydl_no_results ''q'' ''/d'' ''b'' ''ast'' w0) = None \<and>
   path_join ''/d'' ''b.mp3'' = ''/d/b.mp3''"
proof -
  have a: "fst (download_song ydl_ok ''q'' ''/d'' ''b'' ''ast'' w0) = Some ''/d/b.mp3''" by code_simp
  have b: "fst (download_song ydl_no_results ''q'' ''/d'' ''b'' ''ast'' w0) = None" by code_simp
  from download_song_success_iff [of ydl_ok "''q''" "''/d''" "''b''" "''ast''" w0]
  have "path_join ''/d'' ''b.mp3'' = ''/d/b.mp3''" by simp
  with a b show ?thesis by simp
qed

section \<open>The lookups of an album fetch\<close>

lemma lookup_ids_Nil: "lookup_ids [] = []"
  by (simp add: lookup_ids_def map_filter_simps)

lemma lookup_ids_Cons:
  "lookup_ids (ti # tis) =
     (case ti_id ti of None \<Rightarrow> lookup_ids tis
      | Some tid \<Rightarrow> if tid \<noteq> [] then tid # lookup_ids tis else lookup_ids tis)"
  by (simp add: lookup_ids_def map_filter_simps split: option.splits)

lemma fetch_album_tracks_ok:
  "\<forall>tid \<in> set (lookup_ids tis). sp_track sp tid = Inr (full tid) \<Longrightarrow>
   fetch_album_tracks sp tis items w =
     (Inr (items @ map full (lookup_ids tis)), w\<lparr>trace := trace w @ map ApiTrack (lookup_ids tis)\<rparr>)"
proof (induction tis arbitrary: items w)
  case Nil
  then show ?case by (simp add: lookup_ids_Nil)
next
  case (Cons ti tis)
  show ?case
  proof (cases "ti_id ti")
    case None
    with Cons show ?thesis by (simp add: lookup_ids_Cons)
  next
    case (Some tid)
    show ?thesis
    proof (cases "tid = []")
      case True
      with Some Cons show ?thesis by (simp add: lookup_ids_Cons)
    next
      case False
      with Some Cons.prems have "sp_track sp tid = Inr (full tid)"
        and "\<forall>t \<in> set (lookup_ids tis). sp_track sp t = Inr (full t)"
        by (simp_all add: lookup_ids_Cons)
      with Some False Cons.IH show ?thesis by (simp add: lookup_ids_Cons emit_def)
    qed
  qed
qed

text \<open>
  Claim C4, as amended. When the album request, the listing request and the lookups succeed,
  \<open>get_items_from_spotify\<close> issues, after the two album requests, exactly one lookup
  \<open>sp.track\<close> for each entry of the listing that has an id which is not empty, in the order of
  the listing, and no other request; the items are the records these lookups returned, in that
  order. An entry without an id is passed over by the test \<open>if tid\<close>.
\<close>

theorem album_fetch_lookups:
  assumes "sp_album sp sid = Inr al" and "sp_album_tracks sp sid = Inr tis"
    and "\<forall>tid \<in> set (lookup_ids tis). sp_track sp tid = Inr (full tid)"
  shows "get_items_from_spotify sp ''album'' sid w =
     (Inr (map full (lookup_ids tis), case al_name al of None \<Rightarrow> ''Unknown Album'' | Some n \<Rightarrow> n),
      w\<lparr>trace := trace w @ [ApiAlbum sid, ApiAlbumTracks sid] @ map ApiTrack (lookup_ids tis) @
          [LogInfo (FoundTracks (length (lookup_ids tis)) ''album''
             (case al_name al of None \<Rightarrow> ''Unknown Album'' | Some n \<Rightarrow> n))]\<rparr>)"
  using assms
  by (simp add: get_items_from_spotify_def fetch_items_def fetch_album_tracks_ok [where full = full] emit_def)

text \<open>
  The wording of the specification asks for one lookup for each entry of the listing. A listing whose
  only entry has no id gets no lookup at all and gives an empty list of items.
\<close>

theorem album_entry_without_id_is_skipped:
  "sp_album_tracks sp_album_no_id ''x'' = Inr [\<lparr>ti_id = None\<rparr>] \<and>
   get_items_from_spotify sp_album_no_id ''album'' ''x'' w0 =
     (Inr ([], ''Al''),
      \<lparr>files = {},
       trace = [ApiAlbum ''x'', ApiAlbumTracks ''x'', LogInfo (FoundTracks 0 ''album'' ''Al'')]\<rparr>)"
  by (simp add: sp_album_no_id_def get_items_from_spotify_def fetch_items_def emit_def w0_def)

text \<open>
  An album whose listing has the entries \<open>t1\<close>, one without id, and \<open>t2\<close>: two lookups, two
  items.
\<close>

theorem album_fetch_lookups_witness:
  "get_items_from_spotify sp_album_two ''album'' ''a1'' w0 =
     (Inr ([song ''t1'', song ''t2''], ''Al''),
      \<lparr>files = {},
       trace = [ApiAlbum ''a1'', ApiAlbumTracks ''a1'', ApiTrack ''t1'', ApiTrack ''t2'',
                LogInfo (FoundTracks 2 ''album'' ''Al'')]\<rparr>)"
  using album_fetch_lookups [where sp = sp_album_two and sid = "''a1''" and al = "\<lparr>al_name = Some ''Al''\<rparr>"
      and tis = "[\<lparr>ti_id = Some ''t1''\<rparr>, \<lparr>ti_id = None\<rparr>, \<lparr>ti_id = Some ''t2''\<rparr>]"
      and full = song and w = w0]
  by (simp add: sp_album_two_def lookup_ids_def map_filter_simps w0_def)

end
